theory Spec2Isabelle
  imports Main "HOL-Library.AList"
begin

section \<open>Calendar dates and the contributions object\<close>

text \<open>
  The fetcher keys its \<^verbatim>\<open>contributions\<close> object by ISO calendar dates
  (\<^verbatim>\<open>"YYYY-MM-DD"\<close>, UTC). A date is modelled by its day number, the number of whole
  days since 1970-01-01 UTC, so \<^verbatim>\<open>"2024-01-01"\<close> is \<open>19723\<close>. On such strings
  (years of four digits, as the upstream calendar and \<^verbatim>\<open>toISOString\<close> write them)
  \<^item> \<^verbatim>\<open>Object.keys(contributions).sort()\<close> (string order) is ascending day-number order;
  \<^item> \<^verbatim>\<open>new Date(s)\<close> is UTC midnight of the day, \<open>86400000\<close> milliseconds per day;
  \<^item> \<^verbatim>\<open>checkDate.setUTCDate(checkDate.getUTCDate() - 1)\<close> is the day number minus one;
  \<^item> \<^verbatim>\<open>d.toISOString().split("T")[0]\<close> of a UTC midnight gives the date back.

  The object itself is the list of its entries in insertion order; an assignment
  \<^verbatim>\<open>contributions[k] = v\<close> is \<^const>\<open>AList.update\<close>, a read \<^verbatim>\<open>contributions[k]\<close>
  is \<^const>\<open>map_of\<close>, with \<open>None\<close> for \<^verbatim>\<open>undefined\<close>. The keys of an object are
  unique, which is \<open>unique_dates\<close>; the merge loops establish it.
\<close>

type_synonym date = int

type_synonym series = "(date \<times> int) list"

definition unique_dates :: "series \<Rightarrow> bool" where
  "unique_dates contributions = distinct (map fst contributions)"

definition nonneg_counts :: "series \<Rightarrow> bool" where
  "nonneg_counts contributions = list_all (\<lambda>entry. 0 \<le> snd entry) contributions"

definition Object_keys :: "series \<Rightarrow> date list" where
  "Object_keys contributions = map fst contributions"

text \<open>\<^verbatim>\<open>new Date(dateString)\<close> as milliseconds since the epoch.\<close>

definition new_Date :: "date \<Rightarrow> int" where
  "new_Date dateString = dateString * (1000 * 60 * 60 * 24)"

text \<open>
  The UTC calendar date of an instant \<open>now\<close> (milliseconds since the epoch):
  \<^verbatim>\<open>new Date(Date.UTC(now.getUTCFullYear(), now.getUTCMonth(), now.getUTCDate()))
    .toISOString().split("T")[0]\<close>, and the same with \<^verbatim>\<open>now.getUTCDate() - 1\<close>.
\<close>

definition utc_today :: "int \<Rightarrow> date" where
  "utc_today now = now div (1000 * 60 * 60 * 24)"

definition utc_yesterday :: "int \<Rightarrow> date" where
  "utc_yesterday now = now div (1000 * 60 * 60 * 24) - 1"

text \<open>JavaScript \<^verbatim>\<open>count > 0\<close> on a value that may be \<^verbatim>\<open>undefined\<close>
  (\<^verbatim>\<open>undefined > 0\<close> is false), and \<^verbatim>\<open>count || 0\<close>.\<close>

definition positive :: "int option \<Rightarrow> bool" where
  "positive count = (case count of None \<Rightarrow> False | Some c \<Rightarrow> 0 < c)"

definition or_zero :: "int option \<Rightarrow> int" where
  "or_zero count = (case count of None \<Rightarrow> 0 | Some c \<Rightarrow> c)"

section \<open>calculateStreaks\<close>

text \<open>
  The \<^verbatim>\<open>while (true)\<close> loop of the current streak. It has no bound of its own, so it is
  a partial function: \<open>None\<close> means that the loop does not return.
\<close>

partial_function (option) current_walk ::
  "series \<Rightarrow> date \<Rightarrow> nat \<Rightarrow> date option \<Rightarrow> date option
     \<Rightarrow> (nat \<times> date option \<times> date option) option" where
  "current_walk contributions checkDate currentStreak currentStreakStart currentStreakEnd =
     (let dateStr = checkDate;
          count = map_of contributions dateStr
      in if count \<noteq> None \<and> positive count
         then current_walk contributions (checkDate - 1) (currentStreak + 1) (Some dateStr)
                (if currentStreakEnd = None then Some dateStr else currentStreakEnd)
         else Some (currentStreak, currentStreakStart, currentStreakEnd))"

declare current_walk.simps [code]

text \<open>
  One iteration of the longest-streak loop, on the variables
  \<open>(prevDate, tempStreak, tempStreakStart, longestStreak, longestStreakStart, longestStreakEnd)\<close>.
\<close>

type_synonym scan = "date option \<times> nat \<times> date option \<times> nat \<times> date option \<times> date option"

fun longest_step :: "series \<Rightarrow> scan \<Rightarrow> date \<Rightarrow> scan" where
  "longest_step contributions
     (prevDate, tempStreak, tempStreakStart, longestStreak, longestStreakStart, longestStreakEnd)
     date =
     (let count = map_of contributions date
      in if positive count
         then
           (let (tempStreak, tempStreakStart) =
              (if (case prevDate of None \<Rightarrow> True
                   | Some prev \<Rightarrow> new_Date date - new_Date prev = 1 * (1000 * 60 * 60 * 24))
               then (tempStreak + 1, if tempStreak = 0 then Some date else tempStreakStart)
               else (1, Some date))
            in if tempStreak > longestStreak
               then (Some date, tempStreak, tempStreakStart, tempStreak, tempStreakStart, Some date)
               else (Some date, tempStreak, tempStreakStart,
                     longestStreak, longestStreakStart, longestStreakEnd))
         else (Some date, 0, tempStreakStart, longestStreak, longestStreakStart, longestStreakEnd))"

definition longest_scan :: "series \<Rightarrow> date list \<Rightarrow> scan" where
  "longest_scan contributions dates =
     foldl (longest_step contributions) (None, 0, None, 0, None, None) dates"

text \<open>
  The longest-streak pass as the specification words it, on
  \<open>(previous date, running length, run start, best length, best start, best end)\<close>:
  the run extends when the date has a positive count and lies exactly one day after the
  previously visited date; otherwise the running length is reset, to 1 when the date has
  a positive count and to 0 when it has not; the best length and its boundary dates are
  replaced when the running length exceeds the best so far.
\<close>

fun run_step :: "series \<Rightarrow> scan \<Rightarrow> date \<Rightarrow> scan" where
  "run_step contributions (previous, running, runStart, best, bestStart, bestEnd) d =
     (let extends = (positive (map_of contributions d) \<and> previous = Some (d - 1));
          running' = (if extends then running + 1
                      else if positive (map_of contributions d) then 1 else 0);
          runStart' = (if running' = 1 then Some d else runStart)
      in if running' > best
         then (Some d, running', runStart', running', runStart', Some d)
         else (Some d, running', runStart', best, bestStart, bestEnd))"

definition run_scan :: "series \<Rightarrow> date list \<Rightarrow> scan" where
  "run_scan contributions dates =
     foldl (run_step contributions) (None, 0, None, 0, None, None) dates"

text \<open>
  The repository holds a second copy of the function, in
  \<^verbatim>\<open>src/fetchers/streak-fetcher.js\<close>. Its total, first-contribution and longest-streak
  loops are the ones above; its current-streak loop is a \<^verbatim>\<open>for\<close> loop over the sorted
  keys, last to first, on the variables
  \<open>(currentStreak, streaking, currentStreakStart, currentStreakEnd)\<close>.
\<close>

type_synonym keys_walk = "nat \<times> bool \<times> date option \<times> date option"

fun keys_walk_step :: "series \<Rightarrow> date \<Rightarrow> keys_walk \<Rightarrow> date \<Rightarrow> keys_walk" where
  "keys_walk_step contributions today
     (currentStreak, streaking, currentStreakStart, currentStreakEnd) date =
     (let count = map_of contributions date
      in if date > today
         then (currentStreak, streaking, currentStreakStart, currentStreakEnd)
         else if streaking
         then (if positive count
               then (currentStreak + 1, streaking, Some date,
                     if currentStreakEnd = None then Some date else currentStreakEnd)
               else if date = today \<or> date < today
               then (currentStreak, False, currentStreakStart, currentStreakEnd)
               else (currentStreak, streaking, currentStreakStart, currentStreakEnd))
         else (currentStreak, streaking, currentStreakStart, currentStreakEnd))"

definition keys_walk :: "series \<Rightarrow> date \<Rightarrow> date list \<Rightarrow> keys_walk" where
  "keys_walk contributions today dates =
     foldl (keys_walk_step contributions today) (0, True, None, None) (rev dates)"

subsection \<open>The result record\<close>

text \<open>
  The object returned by \<^verbatim>\<open>calculateStreaks\<close>. The five date fields are held at
  type \<open>'d\<close>: \<open>date option\<close> for the local variables before formatting (\<open>None\<close> is
  \<^verbatim>\<open>null\<close>), \<open>string\<close> for the returned display strings.
\<close>

record 'd StreakResult =
  currentStreak :: nat
  longestStreak :: nat
  totalContributions :: int
  firstContribution :: 'd
  currentStreakStart :: 'd
  currentStreakEnd :: 'd
  longestStreakStart :: 'd
  longestStreakEnd :: 'd

text \<open>The anchor \<^verbatim>\<open>startDate\<close> of the current streak.\<close>

definition startDate :: "series \<Rightarrow> int \<Rightarrow> date option" where
  "startDate contributions now =
     (let today = utc_today now;
          yesterday = utc_yesterday now;
          todayCount = or_zero (map_of contributions today);
          yesterdayCount = or_zero (map_of contributions yesterday)
      in if todayCount > 0 then Some today
         else if yesterdayCount > 0 then Some yesterday
         else None)"

text \<open>
  The local variables of \<^verbatim>\<open>calculateStreaks\<close> at its \<^verbatim>\<open>return\<close>, for the instant
  \<open>now\<close> that \<^verbatim>\<open>new Date()\<close> gave. In the loops over \<^verbatim>\<open>dates\<close> every \<^verbatim>\<open>date\<close> is a
  key, so \<^verbatim>\<open>contributions[date]\<close> is defined there.
\<close>

definition calculateStreaks_locals :: "series \<Rightarrow> int \<Rightarrow> date option StreakResult option" where
  "calculateStreaks_locals contributions now =
     (let dates = sort (Object_keys contributions);
          first = find (\<lambda>date. positive (map_of contributions date)) dates;
          total =
            foldl (\<lambda>total date. total + or_zero (map_of contributions date)) 0 dates
      in case (case startDate contributions now of
                 None \<Rightarrow> Some (0, None, None)
               | Some start \<Rightarrow> current_walk contributions start 0 None None) of
           None \<Rightarrow> None
         | Some (cur, curStart, curEnd) \<Rightarrow>
             (case longest_scan contributions dates of
                (prevDate, tempStreak, tempStreakStart, longest, longestStart, longestEnd) \<Rightarrow>
                  Some \<lparr> currentStreak = cur,
                         longestStreak = longest,
                         totalContributions = total,
                         firstContribution = first,
                         currentStreakStart = curStart,
                         currentStreakEnd = curEnd,
                         longestStreakStart = longestStart,
                         longestStreakEnd = longestEnd \<rparr>))"

text \<open>
  \<^verbatim>\<open>formatDateForDisplay\<close>. The two calls of \<^verbatim>\<open>date.toLocaleDateString("en-US", ...)\<close>
  belong to the JavaScript runtime and are the parameter \<open>toLocaleDateString\<close>, whose
  second argument tells whether \<^verbatim>\<open>year: "numeric"\<close> is among the options.
\<close>

definition formatDateForDisplay ::
  "(date \<Rightarrow> bool \<Rightarrow> string) \<Rightarrow> date option \<Rightarrow> bool \<Rightarrow> string" where
  "formatDateForDisplay toLocaleDateString dateString includeYear =
     (case dateString of
        None \<Rightarrow> []
      | Some date \<Rightarrow>
          if includeYear then toLocaleDateString date True
          else toLocaleDateString date False)"

definition calculateStreaks ::
  "(date \<Rightarrow> bool \<Rightarrow> string) \<Rightarrow> series \<Rightarrow> int \<Rightarrow> string StreakResult option" where
  "calculateStreaks toLocaleDateString contributions now =
     (case calculateStreaks_locals contributions now of
        None \<Rightarrow> None
      | Some r \<Rightarrow>
          Some \<lparr> currentStreak = currentStreak r,
                 longestStreak = longestStreak r,
                 totalContributions = totalContributions r,
                 firstContribution =
                   formatDateForDisplay toLocaleDateString (firstContribution r) True,
                 currentStreakStart =
                   formatDateForDisplay toLocaleDateString (currentStreakStart r) False,
                 currentStreakEnd =
                   formatDateForDisplay toLocaleDateString (currentStreakEnd r) False,
                 longestStreakStart =
                   formatDateForDisplay toLocaleDateString (longestStreakStart r) False,
                 longestStreakEnd =
                   formatDateForDisplay toLocaleDateString (longestStreakEnd r) False \<rparr>)"

text \<open>
  The clock of a run: \<open>clock k\<close> is the instant that the \<open>k\<close>-th evaluation of
  \<^verbatim>\<open>new Date()\<close> returns (the no-argument constructor, which reads the wall clock), and
  the number of evaluations so far is threaded through. \<^verbatim>\<open>calculateStreaks\<close> evaluates it
  once, for \<^verbatim>\<open>now\<close>.
\<close>

definition calculateStreaks_run ::
  "(date \<Rightarrow> bool \<Rightarrow> string) \<Rightarrow> (nat \<Rightarrow> int) \<Rightarrow> nat \<Rightarrow> series
     \<Rightarrow> string StreakResult option \<times> nat" where
  "calculateStreaks_run toLocaleDateString clock reads contributions =
     (let now = clock reads;
          reads = reads + 1
      in (calculateStreaks toLocaleDateString contributions now, reads))"

text \<open>The copy in \<^verbatim>\<open>src/fetchers/streak-fetcher.js\<close>, with its own current-streak loop.\<close>

definition calculateStreaks_keys_locals :: "series \<Rightarrow> int \<Rightarrow> date option StreakResult" where
  "calculateStreaks_keys_locals contributions now =
     (let dates = sort (Object_keys contributions);
          first = find (\<lambda>date. positive (map_of contributions date)) dates;
          today = utc_today now;
          total =
            foldl (\<lambda>total date. total + or_zero (map_of contributions date)) 0 dates
      in case keys_walk contributions today dates of
           (cur, streaking, curStart, curEnd) \<Rightarrow>
             (case longest_scan contributions dates of
                (prevDate, tempStreak, tempStreakStart, longest, longestStart, longestEnd) \<Rightarrow>
                  \<lparr> currentStreak = cur,
                    longestStreak = longest,
                    totalContributions = total,
                    firstContribution = first,
                    currentStreakStart = curStart,
                    currentStreakEnd = curEnd,
                    longestStreakStart = longestStart,
                    longestStreakEnd = longestEnd \<rparr>))"

section \<open>Merging the years into one object\<close>

text \<open>
  A \<^verbatim>\<open>contributionDays\<close> entry is the pair of its \<^verbatim>\<open>date\<close> and its
  \<^verbatim>\<open>contributionCount\<close>; a year's calendar is its list of weeks.
\<close>

type_synonym contributionDay = "date \<times> int"

definition assign_days :: "series \<Rightarrow> contributionDay list \<Rightarrow> series" where
  "assign_days contributions days =
     foldl (\<lambda>contributions day. AList.update (fst day) (snd day) contributions)
       contributions days"

text \<open>
  The loop of \<^verbatim>\<open>fetchAllYearsCalendar\<close>: \<open>user year\<close> is
  \<^verbatim>\<open>user[`y${year}`]?.contributionCalendar?.weeks\<close>, \<open>None\<close> when that is missing.
\<close>

definition combine_years ::
  "(int \<Rightarrow> contributionDay list list option) \<Rightarrow> int list \<Rightarrow> series" where
  "combine_years user years =
     foldl (\<lambda>contributions year.
              case user year of
                None \<Rightarrow> contributions
              | Some weeks \<Rightarrow> foldl assign_days contributions weeks)
       [] years"

text \<open>
  The loop of \<^verbatim>\<open>fetchStreak\<close> in \<^verbatim>\<open>src/fetchers/streak-fetcher.js\<close>, over the lists of
  days that \<^verbatim>\<open>fetchYearCalendar\<close> returned for the years
  (\<^verbatim>\<open>weeks.flatMap(w => w.contributionDays)\<close>).
\<close>

definition combine_year_days :: "(int \<Rightarrow> contributionDay list) \<Rightarrow> int list \<Rightarrow> series" where
  "combine_year_days days_of years =
     foldl (\<lambda>contributions year. assign_days contributions (days_of year)) [] years"

text \<open>The day observations in the order in which the loops assign them.\<close>

definition observations ::
  "(int \<Rightarrow> contributionDay list list option) \<Rightarrow> int list \<Rightarrow> contributionDay list" where
  "observations user years =
     concat (map (\<lambda>year. case user year of None \<Rightarrow> [] | Some weeks \<Rightarrow> concat weeks) years)"

section \<open>fetchStreak and its failures\<close>

text \<open>
  Modelled from the spec: the class \<^verbatim>\<open>CustomError\<close> lives in \<^verbatim>\<open>src/common/utils.js\<close>,
  which is not among the sources; it is a failure that carries a primary message and a
  tag, its \<^verbatim>\<open>type\<close> (the secondary detail is derived from the tag by that class).
  \<open>Error\<close> is any other thrown value with a message, such as a network error raised by
  \<^verbatim>\<open>request\<close>.
\<close>

datatype error_type = USER_NOT_FOUND | GRAPHQL_ERROR

datatype thrown = CustomError string error_type | Error string

fun message :: "thrown \<Rightarrow> string" where
  "message (CustomError m t) = m"
| "message (Error m) = m"

fun tag :: "thrown \<Rightarrow> error_type option" where
  "tag (CustomError m t) = Some t"
| "tag (Error m) = None"

text \<open>
  \<^verbatim>\<open>request\<close> is the upstream collaborator. For each of the two queries it throws, or
  answers without a \<^verbatim>\<open>user\<close> (\<open>None\<close>), or answers with the user's data. The calls made
  are logged, in order.
\<close>

datatype call = Years_query string string | Calendar_query string "int list" string

record upstream =
  years_response :: "string \<Rightarrow> string \<Rightarrow> thrown + int list option"
  calendar_response ::
    "string \<Rightarrow> int list \<Rightarrow> string
       \<Rightarrow> thrown + (int \<Rightarrow> contributionDay list list option) option"

definition fetchContributionYears ::
  "upstream \<Rightarrow> string \<Rightarrow> string \<Rightarrow> call list \<Rightarrow> (thrown + int list) \<times> call list" where
  "fetchContributionYears request username token calls =
     (case years_response request username token of
        Inl err \<Rightarrow> (Inl err, calls @ [Years_query username token])
      | Inr None \<Rightarrow>
          (Inl (CustomError ''Could not fetch user.'' USER_NOT_FOUND),
           calls @ [Years_query username token])
      | Inr (Some years) \<Rightarrow> (Inr years, calls @ [Years_query username token]))"

definition fetchAllYearsCalendar ::
  "upstream \<Rightarrow> string \<Rightarrow> int list \<Rightarrow> string \<Rightarrow> call list
     \<Rightarrow> (thrown + series) \<times> call list" where
  "fetchAllYearsCalendar request username years token calls =
     (case calendar_response request username years token of
        Inl err \<Rightarrow> (Inl err, calls @ [Calendar_query username years token])
      | Inr None \<Rightarrow>
          (Inl (CustomError ''Could not fetch user.'' USER_NOT_FOUND),
           calls @ [Calendar_query username years token])
      | Inr (Some user) \<Rightarrow>
          (Inr (combine_years user years), calls @ [Calendar_query username years token]))"

text \<open>
  \<^verbatim>\<open>fetchStreak\<close>: the result is the thrown \<^verbatim>\<open>CustomError\<close> or the value of
  \<^verbatim>\<open>calculateStreaks\<close>, with the upstream calls made. \<open>now\<close> is the instant that
  \<^verbatim>\<open>calculateStreaks\<close> reads.
\<close>

definition fetchStreak ::
  "(date \<Rightarrow> bool \<Rightarrow> string) \<Rightarrow> upstream \<Rightarrow> int \<Rightarrow> string \<Rightarrow> string
     \<Rightarrow> (thrown + string StreakResult option) \<times> call list" where
  "fetchStreak toLocaleDateString request now username token =
     (if username = []
      then (Inl (CustomError ''Missing username parameter'' USER_NOT_FOUND), [])
      else
        let (attempt, calls) =
          (case fetchContributionYears request username token [] of
             (Inl err, calls) \<Rightarrow> (Inl err, calls)
           | (Inr years, calls) \<Rightarrow>
               (case fetchAllYearsCalendar request username years token calls of
                  (Inl err, calls) \<Rightarrow> (Inl err, calls)
                | (Inr contributions, calls) \<Rightarrow>
                    (Inr (calculateStreaks toLocaleDateString contributions now), calls)))
        in case attempt of
             Inl err \<Rightarrow>
               (Inl (CustomError
                       (if message err = [] then ''Could not fetch streak data.''
                        else message err)
                       GRAPHQL_ERROR),
                calls)
           | Inr streak \<Rightarrow> (Inr streak, calls))"


section \<open>The current-streak loop returns\<close>

lemma positive_iff: "positive c \<longleftrightarrow> (\<exists>n. c = Some n \<and> 0 < n)"
  by (cases c) (simp_all add: positive_def)

lemma positive_or_zero: "0 < or_zero c \<longleftrightarrow> positive c"
  by (cases c) (simp_all add: positive_def or_zero_def)

lemma positive_key: "positive (map_of S d) \<Longrightarrow> d \<in> set (map fst S)"
  by (auto simp: positive_iff dest: map_of_SomeD intro: rev_image_eqI)

text \<open>The keys at or below the date that is checked: one fewer after every counted day.\<close>

lemma keys_below_less:
  assumes "d \<in> set ks"
  shows "length (filter (\<lambda>k. k \<le> d - 1) ks) < length (filter (\<lambda>k. k \<le> (d::int)) ks)"
proof -
  have "length (filter (\<lambda>k. k \<le> d - 1) ks)
      = length (filter (\<lambda>k. k \<le> d - 1) (filter (\<lambda>k. k \<le> d) ks))"
    by (simp add: conj_commute) (rule arg_cong [where f = length], rule filter_cong, auto)
  also have "\<dots> < length (filter (\<lambda>k. k \<le> d) ks)"
    using assms by (intro length_filter_less [where x = d]) auto
  finally show ?thesis .
qed

text \<open>
  From any date and any values of its variables the loop returns, having counted the
  \<open>n\<close> days \<open>d, d - 1, \<dots>, d - n + 1\<close> and stopped at \<open>d - n\<close>.
\<close>

lemma current_walk_run:
  "\<exists>n. current_walk S d c s e =
          Some (c + n, (if n = 0 then s else Some (d - int n + 1)),
                (if e = None \<and> 0 < n then Some d else e))
       \<and> (\<forall>i<n. positive (map_of S (d - int i)))
       \<and> \<not> positive (map_of S (d - int n))"
proof (induction "length (filter (\<lambda>k. k \<le> d) (map fst S))" arbitrary: d c s e
    rule: less_induct)
  case less
  show ?case
  proof (cases "positive (map_of S d)")
    case False
    then have "current_walk S d c s e = Some (c, s, e)"
      by (subst current_walk.simps) (simp add: Let_def)
    with False show ?thesis by (intro exI [of _ 0]) simp
  next
    case True
    let ?e = "if e = None then Some d else e"
    from True have "d \<in> set (map fst S)" by (rule positive_key)
    then have "length (filter (\<lambda>k. k \<le> d - 1) (map fst S))
        < length (filter (\<lambda>k. k \<le> d) (map fst S))"
      by (rule keys_below_less)
    from less [OF this, of "c + 1" "Some d" ?e]
    obtain n where n: "current_walk S (d - 1) (c + 1) (Some d) ?e =
          Some (c + 1 + n, (if n = 0 then Some d else Some (d - 1 - int n + 1)),
                (if ?e = None \<and> 0 < n then Some (d - 1) else ?e))"
      and pos: "\<forall>i<n. positive (map_of S (d - 1 - int i))"
      and stop: "\<not> positive (map_of S (d - 1 - int n))"
      by blast
    have unfold: "current_walk S d c s e = current_walk S (d - 1) (c + 1) (Some d) ?e"
      using True by (subst current_walk.simps) (auto simp: Let_def positive_iff)
    have "\<forall>i<Suc n. positive (map_of S (d - int i))"
    proof (intro allI impI)
      fix i assume "i < Suc n"
      show "positive (map_of S (d - int i))"
      proof (cases i)
        case 0 with True show ?thesis by simp
      next
        case (Suc j)
        with \<open>i < Suc n\<close> pos have "positive (map_of S (d - 1 - int j))" by simp
        moreover have "d - 1 - int j = d - int i" using Suc by simp
        ultimately show ?thesis by simp
      qed
    qed
    moreover have "\<not> positive (map_of S (d - int (Suc n)))"
      using stop by (simp add: algebra_simps)
    moreover have "current_walk S d c s e =
          Some (c + Suc n, (if Suc n = 0 then s else Some (d - int (Suc n) + 1)),
                (if e = None \<and> 0 < Suc n then Some d else e))"
      unfolding unfold n by (auto simp: algebra_simps)
    ultimately show ?thesis by blast
  qed
qed

lemma startDate_cases:
  "startDate S now =
     (if positive (map_of S (utc_today now)) then Some (utc_today now)
      else if positive (map_of S (utc_today now - 1)) then Some (utc_today now - 1)
      else None)"
  by (simp add: startDate_def Let_def positive_or_zero utc_today_def utc_yesterday_def)

lemma startDate_positive: "startDate S now = Some a \<Longrightarrow> positive (map_of S a)"
  by (simp add: startDate_cases split: if_splits)

text \<open>The value of the function without an anchor, and with one.\<close>

lemma locals_no_anchor:
  assumes "startDate S now = None"
  shows "\<exists>p t ts l ls le.
           longest_scan S (sort (Object_keys S)) = (p, t, ts, l, ls, le)
         \<and> calculateStreaks_locals S now =
             Some \<lparr> currentStreak = 0, longestStreak = l,
                    totalContributions =
                      foldl (\<lambda>total date. total + or_zero (map_of S date)) 0
                        (sort (Object_keys S)),
                    firstContribution =
                      find (\<lambda>date. positive (map_of S date)) (sort (Object_keys S)),
                    currentStreakStart = None, currentStreakEnd = None,
                    longestStreakStart = ls, longestStreakEnd = le \<rparr>"
proof -
  obtain p t ts l ls le
    where "longest_scan S (sort (Object_keys S)) = (p, t, ts, l, ls, le)"
    by (metis prod_cases6)
  with assms show ?thesis
    by (simp add: calculateStreaks_locals_def Let_def)
qed

lemma locals_anchor:
  assumes "startDate S now = Some a"
  shows "\<exists>n p t ts l ls le.
           longest_scan S (sort (Object_keys S)) = (p, t, ts, l, ls, le)
         \<and> calculateStreaks_locals S now =
             Some \<lparr> currentStreak = Suc n, longestStreak = l,
                    totalContributions =
                      foldl (\<lambda>total date. total + or_zero (map_of S date)) 0
                        (sort (Object_keys S)),
                    firstContribution =
                      find (\<lambda>date. positive (map_of S date)) (sort (Object_keys S)),
                    currentStreakStart = Some (a - int n), currentStreakEnd = Some a,
                    longestStreakStart = ls, longestStreakEnd = le \<rparr>
         \<and> (\<forall>i<Suc n. positive (map_of S (a - int i)))
         \<and> \<not> positive (map_of S (a - int (Suc n)))"
proof -
  obtain p t ts l ls le
    where scan: "longest_scan S (sort (Object_keys S)) = (p, t, ts, l, ls, le)"
    by (metis prod_cases6)
  from current_walk_run [of S a 0 None None]
  obtain m where walk: "current_walk S a 0 None None =
        Some (m, (if m = 0 then None else Some (a - int m + 1)), (if 0 < m then Some a else None))"
    and pos: "\<forall>i<m. positive (map_of S (a - int i))"
    and stop: "\<not> positive (map_of S (a - int m))"
    by auto
  from assms have "positive (map_of S a)" by (rule startDate_positive)
  with stop have "m \<noteq> 0" by (cases m) auto
  then obtain n where m: "m = Suc n" by (cases m) auto
  have "calculateStreaks_locals S now =
      Some \<lparr> currentStreak = Suc n, longestStreak = l,
             totalContributions =
               foldl (\<lambda>total date. total + or_zero (map_of S date)) 0 (sort (Object_keys S)),
             firstContribution =
               find (\<lambda>date. positive (map_of S date)) (sort (Object_keys S)),
             currentStreakStart = Some (a - int n), currentStreakEnd = Some a,
             longestStreakStart = ls, longestStreakEnd = le \<rparr>"
    using assms scan walk m by (simp add: calculateStreaks_locals_def Let_def)
  with scan pos stop m show ?thesis by blast
qed

lemma calculateStreaks_format:
  "calculateStreaks_locals S now = Some r \<Longrightarrow>
   calculateStreaks fmt S now =
     Some \<lparr> currentStreak = currentStreak r, longestStreak = longestStreak r,
            totalContributions = totalContributions r,
            firstContribution = formatDateForDisplay fmt (firstContribution r) True,
            currentStreakStart = formatDateForDisplay fmt (currentStreakStart r) False,
            currentStreakEnd = formatDateForDisplay fmt (currentStreakEnd r) False,
            longestStreakStart = formatDateForDisplay fmt (longestStreakStart r) False,
            longestStreakEnd = formatDateForDisplay fmt (longestStreakEnd r) False \<rparr>"
  by (simp add: calculateStreaks_def)

lemma locals_returns: "\<exists>r. calculateStreaks_locals S now = Some r"
proof (cases "startDate S now")
  case None
  from locals_no_anchor [OF this] show ?thesis by blast
next
  case (Some a)
  from locals_anchor [OF this] show ?thesis by blast
qed

lemma locals_walk:
  assumes "startDate S now = Some a" and "calculateStreaks_locals S now = Some r"
  shows "current_walk S a 0 None None =
           Some (currentStreak r, currentStreakStart r, currentStreakEnd r)"
proof -
  obtain p t ts l ls le
    where "longest_scan S (sort (Object_keys S)) = (p, t, ts, l, ls, le)"
    by (metis prod_cases6)
  with assms show ?thesis
    by (auto simp: calculateStreaks_locals_def Let_def split: option.splits)
qed

text \<open>
  C10. The computation is total: on every series, the empty one included, and at every
  instant, \<^verbatim>\<open>calculateStreaks\<close> with \<^verbatim>\<open>formatDateForDisplay\<close> returns a result, and the
  backward loop of the current streak returns from every date and every state of its
  variables. On the empty series the result is all zeros and empty strings.
\<close>

theorem calculateStreaks_total:
  "(\<exists>r. calculateStreaks toLocaleDateString contributions now = Some r)
   \<and> (\<exists>w. current_walk contributions checkDate count start ending = Some w)
   \<and> calculateStreaks toLocaleDateString [] now =
       Some \<lparr> currentStreak = 0, longestStreak = 0, totalContributions = 0,
              firstContribution = [], currentStreakStart = [], currentStreakEnd = [],
              longestStreakStart = [], longestStreakEnd = [] \<rparr>"
proof (intro conjI)
  obtain r where "calculateStreaks_locals contributions now = Some r"
    using locals_returns by blast
  then show "\<exists>r. calculateStreaks toLocaleDateString contributions now = Some r"
    by (simp add: calculateStreaks_def)
  show "\<exists>w. current_walk contributions checkDate count start ending = Some w"
    using current_walk_run [of contributions checkDate count start ending] by blast
  have "startDate [] now = None" by (simp add: startDate_cases positive_def)
  then have "calculateStreaks_locals [] now =
      Some \<lparr> currentStreak = 0, longestStreak = 0, totalContributions = 0,
             firstContribution = None, currentStreakStart = None, currentStreakEnd = None,
             longestStreakStart = None, longestStreakEnd = None \<rparr>"
    by (simp add: calculateStreaks_locals_def Let_def Object_keys_def longest_scan_def)
  then show "calculateStreaks toLocaleDateString [] now =
       Some \<lparr> currentStreak = 0, longestStreak = 0, totalContributions = 0,
              firstContribution = [], currentStreakStart = [], currentStreakEnd = [],
              longestStreakStart = [], longestStreakEnd = [] \<rparr>"
    by (simp add: calculateStreaks_def formatDateForDisplay_def)
qed


section \<open>The current streak\<close>

text \<open>
  The anchor in the copy with the \<^verbatim>\<open>while (true)\<close> loop. At every instant and on every
  series: when today's date has a positive count the current-streak loop starts at today,
  which is then the first day counted and the end of the streak; otherwise, when the day
  before today has a positive count, it starts at that day; otherwise the current streak
  is 0 and both of its boundary dates stay null.
\<close>

theorem anchor_policy:
  "\<exists>r. calculateStreaks_locals contributions now = Some r
     \<and> (if positive (map_of contributions (utc_today now))
        then current_walk contributions (utc_today now) 0 None None =
               Some (currentStreak r, currentStreakStart r, currentStreakEnd r)
           \<and> 0 < currentStreak r \<and> currentStreakEnd r = Some (utc_today now)
        else if positive (map_of contributions (utc_today now - 1))
        then current_walk contributions (utc_today now - 1) 0 None None =
               Some (currentStreak r, currentStreakStart r, currentStreakEnd r)
           \<and> 0 < currentStreak r \<and> currentStreakEnd r = Some (utc_today now - 1)
        else currentStreak r = 0 \<and> currentStreakStart r = None
           \<and> currentStreakEnd r = None)"
proof (cases "startDate contributions now")
  case None
  from locals_no_anchor [OF this] obtain r
    where "calculateStreaks_locals contributions now = Some r" "currentStreak r = 0"
      "currentStreakStart r = None" "currentStreakEnd r = None"
    by force
  moreover from None have "\<not> positive (map_of contributions (utc_today now))"
    "\<not> positive (map_of contributions (utc_today now - 1))"
    by (simp_all add: startDate_cases split: if_splits)
  ultimately show ?thesis by simp
next
  case (Some a)
  from locals_anchor [OF this] obtain r
    where r: "calculateStreaks_locals contributions now = Some r" "0 < currentStreak r"
      "currentStreakEnd r = Some a"
    by force
  note walk = locals_walk [OF Some r(1)]
  from Some have "(positive (map_of contributions (utc_today now)) \<and> a = utc_today now)
      \<or> (\<not> positive (map_of contributions (utc_today now))
          \<and> positive (map_of contributions (utc_today now - 1)) \<and> a = utc_today now - 1)"
    by (simp add: startDate_cases split: if_splits)
  with r walk show ?thesis by auto
qed

theorem anchor_policy_witness:
  "\<not> positive (map_of [(19722, 0), (19723, 3), (19724, 1), (19725, 2), (19726, 0)]
        (utc_today 1704369600000))
   \<and> positive (map_of [(19722, 0), (19723, 3), (19724, 1), (19725, 2), (19726, 0)]
        (utc_today 1704369600000 - 1))
   \<and> (\<exists>r. calculateStreaks_locals
             [(19722, 0), (19723, 3), (19724, 1), (19725, 2), (19726, 0)] 1704369600000
           = Some r
         \<and> currentStreak r = 3 \<and> currentStreakEnd r = Some 19725)"
proof -
  have today: "utc_today 1704369600000 = 19726" by code_simp
  have eval: "calculateStreaks_locals
        [(19722, 0), (19723, 3), (19724, 1), (19725, 2), (19726, 0)] 1704369600000 =
      Some \<lparr> currentStreak = 3, longestStreak = 3, totalContributions = 6,
             firstContribution = Some 19723,
             currentStreakStart = Some 19723, currentStreakEnd = Some 19725,
             longestStreakStart = Some 19723, longestStreakEnd = Some 19725 \<rparr>"
    by code_simp
  show ?thesis
    using anchor_policy
      [of "[(19722, 0), (19723, 3), (19724, 1), (19725, 2), (19726, 0)]" 1704369600000]
    by (simp add: today eval positive_def)
qed

text \<open>
  The days counted in the copy with the \<^verbatim>\<open>while (true)\<close> loop. With an anchor, the days
  counted by the current-streak loop are the \<open>currentStreak\<close> consecutive days that end at the anchor: each of them is a key of the
  series with a strictly positive count, and the day before the earliest of them, at which
  the loop stops without counting it, is absent from the series or has a count that is
  not positive (zero, when no count is negative). \<open>currentStreakEnd\<close> is the anchor
  and \<open>currentStreakStart\<close> the earliest day counted. Without an anchor no day is counted.
\<close>

theorem current_streak_contiguous:
  "\<exists>r. calculateStreaks_locals contributions now = Some r
     \<and> (case startDate contributions now of
          None \<Rightarrow> currentStreak r = 0
        | Some anchor \<Rightarrow>
            (\<forall>i<currentStreak r.
               \<exists>count. map_of contributions (anchor - int i) = Some count \<and> 0 < count)
          \<and> (map_of contributions (anchor - int (currentStreak r)) = None
             \<or> (\<exists>count. map_of contributions (anchor - int (currentStreak r)) = Some count
                  \<and> count \<le> 0))
          \<and> (nonneg_counts contributions \<longrightarrow>
               map_of contributions (anchor - int (currentStreak r)) \<in> {None, Some 0})
          \<and> currentStreakEnd r = Some anchor
          \<and> currentStreakStart r = Some (anchor - int (currentStreak r) + 1))"
proof (cases "startDate contributions now")
  case None
  from locals_no_anchor [OF this] obtain r
    where "calculateStreaks_locals contributions now = Some r" "currentStreak r = 0"
    by force
  with None show ?thesis by simp
next
  case (Some a)
  from locals_anchor [OF this] obtain r n
    where r: "calculateStreaks_locals contributions now = Some r"
      and n: "currentStreak r = Suc n"
      and bounds: "currentStreakEnd r = Some a" "currentStreakStart r = Some (a - int n)"
      and pos: "\<forall>i<Suc n. positive (map_of contributions (a - int i))"
      and stop: "\<not> positive (map_of contributions (a - int (Suc n)))"
    by force
  let ?stop = "map_of contributions (a - int (currentStreak r))"
  from pos n have counted: "\<forall>i<currentStreak r.
      \<exists>count. map_of contributions (a - int i) = Some count \<and> 0 < count"
    by (simp add: positive_iff)
  from stop n have stopped: "?stop = None \<or> (\<exists>count. ?stop = Some count \<and> count \<le> 0)"
    by (cases ?stop) (auto simp: positive_def)
  have zero: "?stop \<in> {None, Some 0}" if "nonneg_counts contributions"
  proof (cases ?stop)
    case (Some c)
    then have "(a - int (currentStreak r), c) \<in> set contributions" by (rule map_of_SomeD)
    with that have "0 \<le> c" by (auto simp: nonneg_counts_def list_all_iff)
    with stopped Some show ?thesis by simp
  qed simp
  from bounds n have "currentStreakStart r = Some (a - int (currentStreak r) + 1)" by simp
  with Some r counted stopped zero bounds(1) show ?thesis by simp
qed

theorem current_streak_contiguous_witness:
  "startDate [(19722, 0), (19723, 3), (19724, 1), (19725, 2), (19726, 0)] 1704369600000
     = Some 19725
   \<and> nonneg_counts [(19722, 0), (19723, 3), (19724, 1), (19725, 2), (19726, 0)]
   \<and> (\<exists>r. calculateStreaks_locals
             [(19722, 0), (19723, 3), (19724, 1), (19725, 2), (19726, 0)] 1704369600000
           = Some r
         \<and> currentStreak r = 3
         \<and> currentStreakStart r = Some 19723 \<and> currentStreakEnd r = Some 19725
         \<and> map_of [(19722, 0), (19723, 3), (19724, 1), (19725, 2), (19726, 0)]
             (19725 - int (currentStreak r)) = Some 0)"
proof -
  have anchor: "startDate [(19722, 0), (19723, 3), (19724, 1), (19725, 2), (19726, 0)]
      1704369600000 = Some 19725"
    by code_simp
  have nonneg: "nonneg_counts [(19722, 0), (19723, 3), (19724, 1), (19725, 2), (19726, 0)]"
    by code_simp
  have eval: "calculateStreaks_locals
        [(19722, 0), (19723, 3), (19724, 1), (19725, 2), (19726, 0)] 1704369600000 =
      Some \<lparr> currentStreak = 3, longestStreak = 3, totalContributions = 6,
             firstContribution = Some 19723,
             currentStreakStart = Some 19723, currentStreakEnd = Some 19725,
             longestStreakStart = Some 19723, longestStreakEnd = Some 19725 \<rparr>"
    by code_simp
  show ?thesis
    using current_streak_contiguous
      [of "[(19722, 0), (19723, 3), (19724, 1), (19725, 2), (19726, 0)]" 1704369600000]
    by (simp add: anchor nonneg eval)
qed

section \<open>The total\<close>

lemma foldl_add_sum_list:
  "foldl (\<lambda>total date. total + f date) a ds = a + sum_list (map f ds)" for a :: int
  by (induction ds arbitrary: a) simp_all

lemma total_of_keys:
  assumes "distinct (map fst S)"
  shows "sum_list (map (\<lambda>date. or_zero (map_of S date)) (sort (map fst S)))
       = sum_list (map snd S)"
proof -
  have "sum_list (map (\<lambda>date. or_zero (map_of S date)) (sort (map fst S)))
      = sum (\<lambda>date. or_zero (map_of S date)) (set (map fst S))"
    using assms by (subst sum_list_distinct_conv_sum_set) simp_all
  also have "\<dots> = sum_list (map (\<lambda>date. or_zero (map_of S date)) (map fst S))"
    using assms by (subst sum_list_distinct_conv_sum_set) simp_all
  also have "\<dots> = sum_list (map snd S)"
  proof -
    have "or_zero (map_of S (fst x)) = snd x" if "x \<in> set S" for x
      using assms that by (cases x) (simp add: or_zero_def)
    then have "map (\<lambda>date. or_zero (map_of S date)) (map fst S) = map snd S"
      by simp
    then show ?thesis by (simp only:)
  qed
  finally show ?thesis .
qed

lemma total_nonneg:
  assumes "nonneg_counts S"
  shows "0 \<le> sum_list (map (\<lambda>date. or_zero (map_of S date)) ds)"
proof (rule sum_list_nonneg)
  fix x assume "x \<in> set (map (\<lambda>date. or_zero (map_of S date)) ds)"
  then obtain d where x: "x = or_zero (map_of S d)" by auto
  show "0 \<le> x"
  proof (cases "map_of S d")
    case None
    with x show ?thesis by (simp add: or_zero_def)
  next
    case (Some c)
    then have "(d, c) \<in> set S" by (rule map_of_SomeD)
    with assms have "0 \<le> c" by (auto simp: nonneg_counts_def list_all_iff)
    with x Some show ?thesis by (simp add: or_zero_def)
  qed
qed

lemma locals_total:
  assumes "calculateStreaks_locals S now = Some r"
  shows "totalContributions r
       = sum_list (map (\<lambda>date. or_zero (map_of S date)) (sort (Object_keys S)))"
proof (cases "startDate S now")
  case None
  from locals_no_anchor [OF this] assms show ?thesis
    by (auto simp: foldl_add_sum_list)
next
  case (Some a)
  from locals_anchor [OF this] assms show ?thesis
    by (auto simp: foldl_add_sum_list)
qed

text \<open>
  C6. \<open>totalContributions\<close> of the returned object is the sum of all the counts of the
  series, the zero counts among them; it is not negative when no count is; and it is
  zero on the empty series.
\<close>

theorem total_is_sum_of_counts:
  "\<exists>r. calculateStreaks toLocaleDateString contributions now = Some r
     \<and> (unique_dates contributions \<longrightarrow>
          totalContributions r = sum_list (map snd contributions))
     \<and> (nonneg_counts contributions \<longrightarrow> 0 \<le> totalContributions r)
     \<and> (contributions = [] \<longrightarrow> totalContributions r = 0)"
proof -
  obtain r0 where r0: "calculateStreaks_locals contributions now = Some r0"
    using locals_returns by blast
  note total = locals_total [OF r0]
  from calculateStreaks_format [OF r0, of toLocaleDateString] obtain r
    where r: "calculateStreaks toLocaleDateString contributions now = Some r"
      and same: "totalContributions r = totalContributions r0"
    by force
  have "totalContributions r = sum_list (map snd contributions)"
    if "unique_dates contributions"
    using that total same total_of_keys [of contributions]
    by (simp add: unique_dates_def Object_keys_def)
  moreover have "0 \<le> totalContributions r" if "nonneg_counts contributions"
    using total_nonneg [OF that] total same by simp
  moreover have "totalContributions r = 0" if "contributions = []"
    using that total same by (simp add: Object_keys_def)
  ultimately show ?thesis using r by blast
qed

theorem total_is_sum_of_counts_witness:
  "unique_dates [(19723, 3), (19724, 1), (19725, 0), (19727, 2)]
   \<and> nonneg_counts [(19723, 3), (19724, 1), (19725, 0), (19727, 2)]
   \<and> (\<exists>r. calculateStreaks (\<lambda>date year. ''Jan'')
             [(19723, 3), (19724, 1), (19725, 0), (19727, 2)] 1704456000000 = Some r
         \<and> totalContributions r = 3 + 1 + 0 + 2)
   \<and> (\<exists>r. calculateStreaks (\<lambda>date year. ''Jan'') [] 1704456000000 = Some r
         \<and> totalContributions r = 0)"
proof -
  have unique: "unique_dates [(19723, 3), (19724, 1), (19725, 0), (19727, 2)]"
    by code_simp
  have nonneg: "nonneg_counts [(19723, 3), (19724, 1), (19725, 0), (19727, 2)]"
    by code_simp
  show ?thesis
    using total_is_sum_of_counts
      [of "\<lambda>date year. ''Jan''" "[(19723, 3), (19724, 1), (19725, 0), (19727, 2)]"
        1704456000000]
      total_is_sum_of_counts [of "\<lambda>date year. ''Jan''" "[]" 1704456000000]
    by (auto simp: unique nonneg)
qed

section \<open>The longest streak\<close>

lemma gap_one: "(new_Date d - new_Date p = 86400000) \<longleftrightarrow> d = p + 1"
  by (auto simp: new_Date_def algebra_simps)

text \<open>One iteration, variable by variable.\<close>

lemma longest_step_eq:
  "longest_step S (p, t, ts, l, ls, le) d =
     (let pos = positive (map_of S d);
          t' = (if pos then (if p = None \<or> p = Some (d - 1) then t + 1 else 1) else 0);
          ts' = (if pos
                 then (if p = None \<or> p = Some (d - 1)
                       then (if t = 0 then Some d else ts) else Some d)
                 else ts)
      in (Some d, t', ts',
          (if l < t' then t' else l), (if l < t' then ts' else ls),
          (if l < t' then Some d else le)))"
  by (cases p) (auto simp: gap_one Let_def)

declare longest_step.simps [simp del]

lemma sorted_le_last: "sorted xs \<Longrightarrow> x \<in> set xs \<Longrightarrow> x \<le> (last xs :: int)"
  by (induction xs rule: rev_induct) (auto simp: sorted_append)

text \<open>
  After any sorted prefix of the dates: \<open>prevDate\<close> is the last date visited, the running
  length never exceeds the best one, a running streak has its start among the dates
  visited, and a best streak has both boundary dates, in order.
\<close>

lemma scan_bounds:
  assumes "sorted xs"
    and "foldl (longest_step S) (None, 0, None, 0, None, None) xs = (p, t, ts, l, ls, le)"
  shows "p = (if xs = [] then None else Some (last xs))
       \<and> t \<le> l
       \<and> (0 < t \<longrightarrow> (\<exists>s. ts = Some s \<and> s \<in> set xs))
       \<and> (0 < l \<longrightarrow> (\<exists>s e. ls = Some s \<and> le = Some e \<and> s \<le> e))"
  using assms
proof (induction xs arbitrary: p t ts l ls le rule: rev_induct)
  case Nil
  then show ?case by simp
next
  case (snoc d xs)
  obtain p0 t0 ts0 l0 ls0 le0
    where st: "foldl (longest_step S) (None, 0, None, 0, None, None) xs
        = (p0, t0, ts0, l0, ls0, le0)"
    by (metis prod_cases6)
  from snoc.prems(1) have sxs: "sorted xs" and le: "\<And>x. x \<in> set xs \<Longrightarrow> x \<le> d"
    by (simp_all add: sorted_append)
  note ih = snoc.IH [OF sxs st]
  from snoc.prems(2) st
  have step: "longest_step S (p0, t0, ts0, l0, ls0, le0) d = (p, t, ts, l, ls, le)"
    by simp
  have start: "0 < t \<Longrightarrow> \<exists>s. ts = Some s \<and> s \<in> set (xs @ [d])"
    using step ih by (auto simp: longest_step_eq Let_def split: if_splits)
  have "0 < l \<Longrightarrow> \<exists>s e. ls = Some s \<and> le = Some e \<and> s \<le> e"
  proof (cases "l0 < t")
    case True
    assume "0 < l"
    from True step have "ls = ts" "le = Some d" "l = t"
      by (auto simp: longest_step_eq Let_def split: if_splits)
    moreover from True have "0 < t" by simp
    from start [OF this] obtain s where "ts = Some s" "s \<in> set (xs @ [d])" by blast
    moreover then have "s \<le> d" using le by auto
    ultimately show ?thesis by simp
  next
    case False
    assume "0 < l"
    from False step have "ls = ls0" "le = le0" "l = l0"
      by (auto simp: longest_step_eq Let_def split: if_splits)
    with ih \<open>0 < l\<close> show ?thesis by simp
  qed
  moreover have "p = Some d" "t \<le> l"
    using step by (auto simp: longest_step_eq Let_def split: if_splits)
  ultimately show ?case using start by simp
qed

text \<open>
  After any sorted prefix of distinct dates: a run of \<open>k\<close> consecutive visited days with
  positive counts that ends at the last date is no longer than the running length, and
  one that ends at any visited date is no longer than the best length.
\<close>

lemma scan_runs:
  assumes "sorted xs" and "distinct xs"
    and "foldl (longest_step S) (None, 0, None, 0, None, None) xs = (p, t, ts, l, ls, le)"
  shows "(xs \<noteq> [] \<longrightarrow>
            (\<forall>k. (\<forall>i<k. last xs - int i \<in> set xs \<and> positive (map_of S (last xs - int i)))
                  \<longrightarrow> k \<le> t))
       \<and> (\<forall>e\<in>set xs. \<forall>k. (\<forall>i<k. e - int i \<in> set xs \<and> positive (map_of S (e - int i)))
                  \<longrightarrow> k \<le> l)"
  using assms
proof (induction xs arbitrary: p t ts l ls le rule: rev_induct)
  case Nil
  then show ?case by simp
next
  case (snoc d xs)
  obtain p0 t0 ts0 l0 ls0 le0
    where st: "foldl (longest_step S) (None, 0, None, 0, None, None) xs
        = (p0, t0, ts0, l0, ls0, le0)"
    by (metis prod_cases6)
  from snoc.prems(1,2) have sxs: "sorted xs" and dxs: "distinct xs"
    and lt: "\<And>x. x \<in> set xs \<Longrightarrow> x < d"
    by (auto simp: sorted_append order.strict_iff_order)
  note ih = snoc.IH [OF sxs dxs st]
  from scan_bounds [OF sxs st] have p0: "p0 = (if xs = [] then None else Some (last xs))"
    by simp
  from snoc.prems(3) st
  have step: "longest_step S (p0, t0, ts0, l0, ls0, le0) d = (p, t, ts, l, ls, le)"
    by simp
  have mono: "l0 \<le> l" "t \<le> l"
    using step by (auto simp: longest_step_eq Let_def split: if_splits)
  have run_d: "k \<le> t"
    if run: "\<forall>i<k. d - int i \<in> set (xs @ [d]) \<and> positive (map_of S (d - int i))" for k
  proof (cases "k \<le> 1")
    case True
    show ?thesis
    proof (cases "k = 0")
      case False
      with True have "k = 1" by simp
      with run have "positive (map_of S d)" by simp
      with step have "1 \<le> t" by (auto simp: longest_step_eq Let_def split: if_splits)
      with \<open>k = 1\<close> show ?thesis by simp
    qed simp
  next
    case False
    then have "0 < k" "1 < k" by simp_all
    from run \<open>0 < k\<close> have "positive (map_of S (d - int 0))" by blast
    then have pos: "positive (map_of S d)" by simp
    from run \<open>1 < k\<close> have "d - int 1 \<in> set (xs @ [d])" by blast
    then have mem: "d - 1 \<in> set xs" by simp
    then have ne: "xs \<noteq> []" by auto
    have "last xs \<in> set xs" using ne by simp
    then have "last xs < d" by (rule lt)
    moreover have "d - 1 \<le> last xs"
      using sxs mem by (rule sorted_le_last)
    ultimately have last: "last xs = d - 1" by simp
    with p0 ne have "p0 = Some (d - 1)" by simp
    with step pos have t: "t = t0 + 1"
      by (auto simp: longest_step_eq Let_def split: if_splits)
    have "\<forall>i<k - 1. last xs - int i \<in> set xs \<and> positive (map_of S (last xs - int i))"
    proof (intro allI impI)
      fix i assume i: "i < k - 1"
      then have "Suc i < k" by simp
      with run
      have "d - int (Suc i) \<in> set (xs @ [d]) \<and> positive (map_of S (d - int (Suc i)))"
        by blast
      moreover have eq: "d - int (Suc i) = last xs - int i" using last by simp
      ultimately
      have "last xs - int i \<in> set (xs @ [d]) \<and> positive (map_of S (last xs - int i))"
        by (simp only:)
      moreover have "last xs - int i \<noteq> d" using last by simp
      ultimately show "last xs - int i \<in> set xs \<and> positive (map_of S (last xs - int i))"
        by simp
    qed
    with ih ne have "k - 1 \<le> t0" by blast
    with t show ?thesis by simp
  qed
  have run_e: "k \<le> l"
    if e: "e \<in> set (xs @ [d])"
      and run: "\<forall>i<k. e - int i \<in> set (xs @ [d]) \<and> positive (map_of S (e - int i))"
    for e k
  proof (cases "e = d")
    case True
    with run have "k \<le> t" by (intro run_d) simp
    with mono show ?thesis by simp
  next
    case False
    with e have exs: "e \<in> set xs" by simp
    then have "e < d" by (rule lt)
    have "\<forall>i<k. e - int i \<in> set xs \<and> positive (map_of S (e - int i))"
    proof (intro allI impI)
      fix i assume "i < k"
      with run have "e - int i \<in> set (xs @ [d])" "positive (map_of S (e - int i))"
        by blast+
      moreover have "e - int i \<noteq> d" using \<open>e < d\<close> by simp
      ultimately show "e - int i \<in> set xs \<and> positive (map_of S (e - int i))" by auto
    qed
    with ih exs have "k \<le> l0" by blast
    with mono show ?thesis by simp
  qed
  show ?case using run_d run_e by simp
qed

text \<open>The source's iteration and the specification's agree once a date has been visited,
  and before that while the running length is still 0.\<close>

lemma step_agrees:
  assumes "p \<noteq> None \<or> t = 0"
  shows "longest_step S (p, t, ts, l, ls, le) d = run_step S (p, t, ts, l, ls, le) d"
  using assms by (cases p) (auto simp: longest_step_eq Let_def)

lemma scans_agree:
  assumes "p \<noteq> None \<or> t = 0"
  shows "foldl (longest_step S) (p, t, ts, l, ls, le) ds
       = foldl (run_step S) (p, t, ts, l, ls, le) ds"
  using assms
proof (induction ds arbitrary: p t ts l ls le)
  case Nil
  show ?case by simp
next
  case (Cons d ds)
  obtain t' ts' l' ls' le'
    where next_state: "longest_step S (p, t, ts, l, ls, le) d = (Some d, t', ts', l', ls', le')"
    by (simp add: longest_step_eq Let_def)
  from step_agrees [OF Cons.prems]
  have "run_step S (p, t, ts, l, ls, le) d = (Some d, t', ts', l', ls', le')"
    using next_state by simp
  with next_state Cons.IH [of "Some d" t' ts' l' ls' le'] show ?case by simp
qed

lemma locals_longest:
  assumes "calculateStreaks_locals S now = Some r"
  shows "\<exists>p t ts. longest_scan S (sort (Object_keys S))
           = (p, t, ts, longestStreak r, longestStreakStart r, longestStreakEnd r)"
proof (cases "startDate S now")
  case None
  from locals_no_anchor [OF this] assms show ?thesis by auto
next
  case (Some a)
  from locals_anchor [OF this] assms show ?thesis by auto
qed

text \<open>
  C3. The longest streak comes from one pass over the dates in ascending order, and that
  pass is the one the specification words (\<open>run_step\<close>): the run extends exactly when
  the date has a positive count and lies one day after the previously visited date, the
  running length is otherwise reset to 1 or to 0 as the count is positive or not, and the
  best length with its boundary dates is replaced exactly when the running length exceeds
  it. The two passes agree on every list of dates, so also on the sorted keys, whose best
  length and boundary dates the function returns.
\<close>

theorem longest_pass_as_specified:
  "longest_scan contributions dates = run_scan contributions dates
   \<and> sorted (sort (Object_keys contributions))
   \<and> (\<exists>r previous running runStart.
         calculateStreaks_locals contributions now = Some r
       \<and> run_scan contributions (sort (Object_keys contributions)) =
           (previous, running, runStart,
            longestStreak r, longestStreakStart r, longestStreakEnd r))"
proof (intro conjI)
  show agree: "longest_scan contributions dates = run_scan contributions dates" for dates
    unfolding longest_scan_def run_scan_def by (rule scans_agree) simp
  show "sorted (sort (Object_keys contributions))" by simp
  obtain r where r: "calculateStreaks_locals contributions now = Some r"
    using locals_returns by blast
  from locals_longest [OF r] agree r
  show "\<exists>r previous running runStart.
         calculateStreaks_locals contributions now = Some r
       \<and> run_scan contributions (sort (Object_keys contributions)) =
           (previous, running, runStart,
            longestStreak r, longestStreakStart r, longestStreakEnd r)"
    by metis
qed

text \<open>
  C4. Whenever the current streak is positive its two boundary dates are not null and the
  end is not before the start, and likewise for the longest streak.
\<close>

theorem boundaries_ordered:
  "\<exists>r. calculateStreaks_locals contributions now = Some r
     \<and> (0 < currentStreak r \<longrightarrow>
          (\<exists>start ending. currentStreakStart r = Some start
             \<and> currentStreakEnd r = Some ending \<and> start \<le> ending))
     \<and> (0 < longestStreak r \<longrightarrow>
          (\<exists>start ending. longestStreakStart r = Some start
             \<and> longestStreakEnd r = Some ending \<and> start \<le> ending))"
proof -
  obtain r where r: "calculateStreaks_locals contributions now = Some r"
    using locals_returns by blast
  have current: "\<exists>start ending. currentStreakStart r = Some start
      \<and> currentStreakEnd r = Some ending \<and> start \<le> ending"
    if "0 < currentStreak r"
  proof (cases "startDate contributions now")
    case None
    from locals_no_anchor [OF this] r that show ?thesis by auto
  next
    case (Some a)
    from locals_anchor [OF this] r show ?thesis by auto
  qed
  from locals_longest [OF r] obtain p t ts
    where "longest_scan contributions (sort (Object_keys contributions))
        = (p, t, ts, longestStreak r, longestStreakStart r, longestStreakEnd r)"
    by blast
  then have "foldl (longest_step contributions) (None, 0, None, 0, None, None)
        (sort (Object_keys contributions))
      = (p, t, ts, longestStreak r, longestStreakStart r, longestStreakEnd r)"
    by (simp add: longest_scan_def)
  from scan_bounds [OF _ this]
  have longest: "0 < longestStreak r \<longrightarrow>
      (\<exists>start ending. longestStreakStart r = Some start
         \<and> longestStreakEnd r = Some ending \<and> start \<le> ending)"
    by simp
  show ?thesis
  proof (intro exI [of _ r] conjI impI)
    show "calculateStreaks_locals contributions now = Some r" by (rule r)
    show "\<exists>start ending. currentStreakStart r = Some start
        \<and> currentStreakEnd r = Some ending \<and> start \<le> ending"
      if "0 < currentStreak r"
      using that by (rule current)
    show "\<exists>start ending. longestStreakStart r = Some start
        \<and> longestStreakEnd r = Some ending \<and> start \<le> ending"
      if "0 < longestStreak r"
      using that longest by simp
  qed
qed

theorem boundaries_ordered_witness:
  "\<exists>r. calculateStreaks_locals
          [(19720, 1), (19721, 1), (19722, 1), (19723, 1), (19724, 0), (19725, 2), (19726, 0)]
          1704369600000 = Some r
     \<and> 0 < currentStreak r \<and> 0 < longestStreak r
     \<and> currentStreakStart r = Some 19725 \<and> currentStreakEnd r = Some 19725
     \<and> longestStreakStart r = Some 19720 \<and> longestStreakEnd r = Some 19723"
proof -
  have eval: "calculateStreaks_locals
        [(19720, 1), (19721, 1), (19722, 1), (19723, 1), (19724, 0), (19725, 2), (19726, 0)]
        1704369600000 =
      Some \<lparr> currentStreak = 1, longestStreak = 4, totalContributions = 6,
             firstContribution = Some 19720,
             currentStreakStart = Some 19725, currentStreakEnd = Some 19725,
             longestStreakStart = Some 19720, longestStreakEnd = Some 19723 \<rparr>"
    by code_simp
  show ?thesis
    using boundaries_ordered
      [of "[(19720, 1), (19721, 1), (19722, 1), (19723, 1), (19724, 0), (19725, 2),
            (19726, 0)]" 1704369600000]
    by (simp add: eval)
qed

text \<open>
  C5. On a series with unique dates the longest streak is never shorter than the current
  streak: the consecutive days with positive counts that the backward loop counts from
  its anchor are also met, one after the other, by the ascending pass.
\<close>

theorem longest_at_least_current:
  assumes "unique_dates contributions"
  shows "\<exists>r. calculateStreaks_locals contributions now = Some r
           \<and> currentStreak r \<le> longestStreak r"
proof (cases "startDate contributions now")
  case None
  from locals_no_anchor [OF this] show ?thesis by force
next
  case (Some a)
  let ?dates = "sort (Object_keys contributions)"
  from locals_anchor [OF Some] obtain r n
    where r: "calculateStreaks_locals contributions now = Some r"
      and n: "currentStreak r = Suc n"
      and pos: "\<forall>i<Suc n. positive (map_of contributions (a - int i))"
    by force
  from locals_longest [OF r] obtain p t ts
    where "longest_scan contributions ?dates
        = (p, t, ts, longestStreak r, longestStreakStart r, longestStreakEnd r)"
    by blast
  then have scan: "foldl (longest_step contributions) (None, 0, None, 0, None, None) ?dates
      = (p, t, ts, longestStreak r, longestStreakStart r, longestStreakEnd r)"
    by (simp add: longest_scan_def)
  have "sorted ?dates" by simp
  moreover from assms have "distinct ?dates"
    by (simp add: unique_dates_def Object_keys_def)
  ultimately have runs: "\<forall>e\<in>set ?dates.
      \<forall>k. (\<forall>i<k. e - int i \<in> set ?dates \<and> positive (map_of contributions (e - int i)))
          \<longrightarrow> k \<le> longestStreak r"
    using scan_runs [OF _ _ scan] by blast
  have keys: "a - int i \<in> set ?dates" if "i < Suc n" for i
    using pos that positive_key [of contributions "a - int i"]
    by (simp add: Object_keys_def)
  from keys [of 0] have "a \<in> set ?dates" by simp
  moreover have "\<forall>i<Suc n. a - int i \<in> set ?dates
      \<and> positive (map_of contributions (a - int i))"
    using keys pos by blast
  ultimately have "Suc n \<le> longestStreak r" using runs by blast
  with r n show ?thesis by simp
qed

theorem longest_at_least_current_witness:
  "unique_dates
     [(19720, 1), (19721, 1), (19722, 1), (19723, 1), (19724, 0), (19725, 2), (19726, 0)]
   \<and> (\<exists>r. calculateStreaks_locals
          [(19720, 1), (19721, 1), (19722, 1), (19723, 1), (19724, 0), (19725, 2), (19726, 0)]
          1704369600000 = Some r
        \<and> currentStreak r = 1 \<and> longestStreak r = 4)"
proof -
  have unique: "unique_dates
     [(19720, 1), (19721, 1), (19722, 1), (19723, 1), (19724, 0), (19725, 2), (19726, 0)]"
    by code_simp
  have eval: "calculateStreaks_locals
        [(19720, 1), (19721, 1), (19722, 1), (19723, 1), (19724, 0), (19725, 2), (19726, 0)]
        1704369600000 =
      Some \<lparr> currentStreak = 1, longestStreak = 4, totalContributions = 6,
             firstContribution = Some 19720,
             currentStreakStart = Some 19725, currentStreakEnd = Some 19725,
             longestStreakStart = Some 19720, longestStreakEnd = Some 19723 \<rparr>"
    by code_simp
  show ?thesis
    using longest_at_least_current [OF unique, of 1704369600000]
    by (simp add: unique eval)
qed

section \<open>The merged object\<close>

lemma assign_days_map:
  "map_of (assign_days c days) = map_of c ++ map_of (rev days)"
  unfolding assign_days_def
proof (induction days arbitrary: c)
  case Nil
  show ?case by simp
next
  case (Cons day days)
  have "map_of (rev (day # days)) = map_of [day] ++ map_of (rev days)"
    by (simp only: rev.simps map_of_append)
  moreover have "map_of (AList.update (fst day) (snd day) c) = map_of c ++ map_of [day]"
    by (cases day) (simp add: update_conv')
  ultimately show ?case by (simp add: Cons.IH del: map_of.simps)
qed

lemma assign_weeks_map:
  "map_of (foldl assign_days c weeks) = map_of c ++ map_of (rev (concat weeks))"
proof (induction weeks arbitrary: c)
  case Nil
  show ?case by simp
next
  case (Cons week weeks)
  show ?case by (simp add: Cons.IH assign_days_map)
qed

lemma assign_days_unique: "distinct (map fst c) \<Longrightarrow> distinct (map fst (assign_days c days))"
  unfolding assign_days_def
  by (induction days arbitrary: c) (simp_all add: distinct_update)

lemma assign_weeks_unique:
  "distinct (map fst c) \<Longrightarrow> distinct (map fst (foldl assign_days c weeks))"
  by (induction weeks arbitrary: c) (simp_all add: assign_days_unique)

lemma combine_years_snoc:
  "combine_years user (years @ [year]) =
     (case user year of
        None \<Rightarrow> combine_years user years
      | Some weeks \<Rightarrow> foldl assign_days (combine_years user years) weeks)"
  unfolding combine_years_def by simp

lemma observations_snoc:
  "observations user (years @ [year]) =
     observations user years @ (case user year of None \<Rightarrow> [] | Some weeks \<Rightarrow> concat weeks)"
  by (simp add: observations_def)

lemma combine_years_map:
  "map_of (combine_years user years) = map_of (rev (observations user years))"
proof (induction years rule: rev_induct)
  case Nil
  show ?case by (simp add: combine_years_def observations_def)
next
  case (snoc year years)
  show ?case
    by (cases "user year")
      (simp_all add: combine_years_snoc observations_snoc snoc.IH assign_weeks_map)
qed

lemma combine_years_unique: "unique_dates (combine_years user years)"
proof (induction years rule: rev_induct)
  case Nil
  show ?case by (simp add: combine_years_def unique_dates_def)
next
  case (snoc year years)
  then show ?case
    by (cases "user year") (simp_all add: combine_years_snoc unique_dates_def assign_weeks_unique)
qed

lemma combine_year_days_eq:
  "combine_year_days days_of years = combine_years (\<lambda>year. Some [days_of year]) years"
  by (simp add: combine_year_days_def combine_years_def)

lemma last_observation_wins:
  assumes "obs = earlier @ (d, v) # later" and "d \<notin> fst ` set later"
  shows "map_of (rev obs) d = Some v"
proof -
  have "map_of (rev later) d = None"
    using assms(2) by (simp add: map_of_eq_None_iff)
  then show ?thesis
    using assms(1) by (simp add: map_add_def)
qed


text \<open>
  C7. The merge of the years is keyed by date. A later year overrides the earlier ones:
  of all the observations of a date, in the order in which the years are processed, the
  last one gives the value; and a date that no year emits is not a key of the result.
  The loop of the copy in \<^verbatim>\<open>src/fetchers/streak-fetcher.js\<close> is the same merge, each
  year being the one list of its days.
\<close>

theorem later_year_wins:
  "map_of (combine_years user (years @ [year])) =
     map_of (combine_years user years) ++ map_of (rev (observations user [year]))
   \<and> (\<forall>earlier later d v.
         observations user years = earlier @ (d, v) # later \<and> d \<notin> fst ` set later
         \<longrightarrow> map_of (combine_years user years) d = Some v)
   \<and> (\<forall>d. d \<notin> fst ` set (observations user years)
         \<longrightarrow> map_of (combine_years user years) d = None)
   \<and> combine_year_days days_of years = combine_years (\<lambda>year. Some [days_of year]) years"
proof (intro conjI allI impI)
  show "map_of (combine_years user (years @ [year])) =
     map_of (combine_years user years) ++ map_of (rev (observations user [year]))"
    by (simp add: combine_years_map observations_def)
  show "map_of (combine_years user years) d = Some v"
    if "observations user years = earlier @ (d, v) # later \<and> d \<notin> fst ` set later"
    for earlier later d v
    using that last_observation_wins [of "observations user years" earlier d v later]
    by (simp add: combine_years_map)
  show "map_of (combine_years user years) d = None"
    if "d \<notin> fst ` set (observations user years)" for d
    using that by (simp add: combine_years_map map_of_eq_None_iff)
  show "combine_year_days days_of years = combine_years (\<lambda>year. Some [days_of year]) years"
    by (rule combine_year_days_eq)
qed

theorem later_year_wins_witness:
  "observations
     (\<lambda>year. if year = 2023 then Some [[(19722, 5)], [(19723, 1)]]
             else if year = 2024 then Some [[(19723, 7)]] else None)
     [2023, 2024] = [(19722, 5), (19723, 1)] @ (19723, 7) # []
   \<and> map_of (combine_years
        (\<lambda>year. if year = 2023 then Some [[(19722, 5)], [(19723, 1)]]
                else if year = 2024 then Some [[(19723, 7)]] else None)
        [2023, 2024]) 19723 = Some 7
   \<and> 19724 \<notin> fst ` set (observations
        (\<lambda>year. if year = 2023 then Some [[(19722, 5)], [(19723, 1)]]
                else if year = 2024 then Some [[(19723, 7)]] else None)
        [2023, 2024])
   \<and> map_of (combine_years
        (\<lambda>year. if year = 2023 then Some [[(19722, 5)], [(19723, 1)]]
                else if year = 2024 then Some [[(19723, 7)]] else None)
        [2023, 2024]) 19724 = None"
proof -
  let ?user = "\<lambda>year::int. if year = 2023 then Some [[(19722::int, 5::int)], [(19723, 1)]]
                else if year = 2024 then Some [[(19723, 7)]] else None"
  have obs: "observations ?user [2023, 2024] = [(19722, 5), (19723, 1)] @ (19723, 7) # []"
    by (simp add: observations_def)
  have absent: "19724 \<notin> fst ` set (observations ?user [2023, 2024])"
    by (simp add: obs)
  note merged = later_year_wins [of ?user "[2023, 2024]" 2025 "\<lambda>year. []"]
  from merged have "\<forall>earlier later d v.
         observations ?user [2023, 2024] = earlier @ (d, v) # later \<and> d \<notin> fst ` set later
         \<longrightarrow> map_of (combine_years ?user [2023, 2024]) d = Some v"
    by (rule conjunct2 [THEN conjunct1])
  with obs have "map_of (combine_years ?user [2023, 2024]) 19723 = Some 7"
    by (metis empty_iff empty_set image_empty)
  moreover from merged
  have "\<forall>d. d \<notin> fst ` set (observations ?user [2023, 2024])
         \<longrightarrow> map_of (combine_years ?user [2023, 2024]) d = None"
    by (rule conjunct2 [THEN conjunct2, THEN conjunct1])
  with absent have "map_of (combine_years ?user [2023, 2024]) 19724 = None"
    by blast
  ultimately show ?thesis using obs absent by simp
qed

section \<open>The failures of fetchStreak\<close>

lemma fetchStreak_missing_username:
  "fetchStreak fmt request now [] token =
     (Inl (CustomError ''Missing username parameter'' USER_NOT_FOUND), [])"
  by (simp add: fetchStreak_def)

lemma fetchContributionYears_not_found:
  "years_response request username token = Inr None \<Longrightarrow>
   fst (fetchContributionYears request username token calls) =
     Inl (CustomError ''Could not fetch user.'' USER_NOT_FOUND)"
  by (simp add: fetchContributionYears_def)

text \<open>Whatever is thrown inside the \<^verbatim>\<open>try\<close> block leaves it tagged \<open>GRAPHQL_ERROR\<close>.\<close>

lemma fetchStreak_failure_tag:
  assumes "username \<noteq> []"
    and "fst (fetchStreak fmt request now username token) = Inl err"
  shows "tag err = Some GRAPHQL_ERROR"
  using assms
  by (auto simp: fetchStreak_def Let_def split: prod.splits sum.splits if_splits)

text \<open>
  C8. A user that the upstream does not resolve: \<^verbatim>\<open>fetchContributionYears\<close> throws the
  failure tagged \<open>USER_NOT_FOUND\<close>, and \<^verbatim>\<open>fetchStreak\<close> hands it to its caller tagged
  \<open>GRAPHQL_ERROR\<close>, the tag it also gives to a network error. A missing user name is
  rejected before any call, tagged \<open>USER_NOT_FOUND\<close>.
\<close>

theorem not_found_tag_replaced:
  "fst (fetchContributionYears
          \<lparr> years_response = \<lambda>username token. Inr None,
            calendar_response = \<lambda>username years token. Inr None \<rparr>
          ''ghost'' ''token'' [])
     = Inl (CustomError ''Could not fetch user.'' USER_NOT_FOUND)
   \<and> fetchStreak (\<lambda>date year. ''Jan'')
        \<lparr> years_response = \<lambda>username token. Inr None,
          calendar_response = \<lambda>username years token. Inr None \<rparr>
        1704456000000 ''ghost'' ''token''
     = (Inl (CustomError ''Could not fetch user.'' GRAPHQL_ERROR),
        [Years_query ''ghost'' ''token''])
   \<and> fetchStreak (\<lambda>date year. ''Jan'')
        \<lparr> years_response = \<lambda>username token. Inl (Error ''Network Error''),
          calendar_response = \<lambda>username years token. Inl (Error ''Network Error'') \<rparr>
        1704456000000 ''ghost'' ''token''
     = (Inl (CustomError ''Network Error'' GRAPHQL_ERROR),
        [Years_query ''ghost'' ''token''])
   \<and> fetchStreak (\<lambda>date year. ''Jan'')
        \<lparr> years_response = \<lambda>username token. Inr None,
          calendar_response = \<lambda>username years token. Inr None \<rparr>
        1704456000000 [] ''token''
     = (Inl (CustomError ''Missing username parameter'' USER_NOT_FOUND), [])"
  by (simp add: fetchStreak_def fetchContributionYears_def)

section \<open>One reading of the clock\<close>

lemma current_walk_map_of:
  assumes "map_of S = map_of S'"
  shows "current_walk S d c s e = current_walk S' d c s e"
proof -
  from current_walk_run [of S d c s e] obtain n
    where n: "current_walk S d c s e =
        Some (c + n, (if n = 0 then s else Some (d - int n + 1)),
              (if e = None \<and> 0 < n then Some d else e))"
      and pos: "\<forall>i<n. positive (map_of S (d - int i))"
      and stop: "\<not> positive (map_of S (d - int n))"
    by blast
  from current_walk_run [of S' d c s e] obtain m
    where m: "current_walk S' d c s e =
        Some (c + m, (if m = 0 then s else Some (d - int m + 1)),
              (if e = None \<and> 0 < m then Some d else e))"
      and pos': "\<forall>i<m. positive (map_of S' (d - int i))"
      and stop': "\<not> positive (map_of S' (d - int m))"
    by blast
  have "\<not> n < m" using pos' stop assms by auto
  moreover have "\<not> m < n" using pos stop' assms by auto
  ultimately have "n = m" by simp
  with n m show ?thesis by simp
qed

lemma longest_step_map_of:
  assumes "map_of S = map_of S'"
  shows "longest_step S = longest_step S'"
proof (intro ext)
  fix st :: scan and d
  obtain p t ts l ls le where "st = (p, t, ts, l, ls, le)" by (metis prod_cases6)
  then show "longest_step S st d = longest_step S' st d"
    by (simp add: longest_step_eq assms)
qed

lemma sorted_keys_map_of:
  assumes "unique_dates S" and "unique_dates S'" and "map_of S = map_of S'"
  shows "sort (Object_keys S) = sort (Object_keys S')"
proof (rule sorted_distinct_set_unique)
  have "set (map fst S) = dom (map_of S)" by (simp add: dom_map_of_conv_image_fst)
  also have "\<dots> = dom (map_of S')" by (simp add: assms(3))
  also have "\<dots> = set (map fst S')" by (simp add: dom_map_of_conv_image_fst)
  finally show "set (sort (Object_keys S)) = set (sort (Object_keys S'))"
    by (simp add: Object_keys_def)
qed (use assms in \<open>simp_all add: unique_dates_def Object_keys_def\<close>)

lemma startDate_day:
  assumes "map_of S = map_of S'" and "utc_today now = utc_today now'"
  shows "startDate S now = startDate S' now'"
  by (simp add: startDate_cases assms)

lemma locals_same:
  assumes "unique_dates S" and "unique_dates S'" and "map_of S = map_of S'"
    and "utc_today now = utc_today now'"
  shows "calculateStreaks_locals S now = calculateStreaks_locals S' now'"
  unfolding calculateStreaks_locals_def longest_scan_def
    sorted_keys_map_of [OF assms(1-3)] startDate_day [OF assms(3,4)]
    longest_step_map_of [OF assms(3)] assms(3)
  by (simp add: current_walk_map_of [OF assms(3)] cong: option.case_cong)

text \<open>
  C9. Two runs on the same series (the same dates with the same counts, in whatever order
  they were inserted) whose readings of the clock fall on the same UTC date return the
  same result. A run reads the clock exactly once, and its whole result is the value of
  the function at that one reading.
\<close>

theorem same_series_same_day_same_result:
  assumes "unique_dates contributions" and "unique_dates contributions'"
    and "map_of contributions = map_of contributions'"
    and "utc_today (clock reads) = utc_today (clock' reads')"
  shows "fst (calculateStreaks_run toLocaleDateString clock reads contributions)
           = fst (calculateStreaks_run toLocaleDateString clock' reads' contributions')
       \<and> snd (calculateStreaks_run toLocaleDateString clock reads contributions) = reads + 1
       \<and> fst (calculateStreaks_run toLocaleDateString clock reads contributions)
           = calculateStreaks toLocaleDateString contributions (clock reads)"
  using locals_same [OF assms]
  by (simp add: calculateStreaks_run_def calculateStreaks_def Let_def)

theorem same_series_same_day_same_result_witness:
  "unique_dates [(19726, 4), (19727, 0)] \<and> unique_dates [(19727, 0), (19726, 4)]
   \<and> map_of [(19726 :: int, 4 :: int), (19727, 0)] = map_of [(19727, 0), (19726, 4)]
   \<and> utc_today ((\<lambda>k. 1704456000000 + int k) 0) = utc_today ((\<lambda>k. 1704412800000) 5)
   \<and> fst (calculateStreaks_run (\<lambda>date year. ''Jan'') (\<lambda>k. 1704456000000 + int k) 0
            [(19726, 4), (19727, 0)])
     = fst (calculateStreaks_run (\<lambda>date year. ''Jan'') (\<lambda>k. 1704412800000) 5
            [(19727, 0), (19726, 4)])
   \<and> snd (calculateStreaks_run (\<lambda>date year. ''Jan'') (\<lambda>k. 1704456000000 + int k) 0
            [(19726, 4), (19727, 0)]) = 1"
proof -
  have unique: "unique_dates [(19726, 4), (19727, 0)]" "unique_dates [(19727, 0), (19726, 4)]"
    by (simp_all add: unique_dates_def)
  have same: "map_of [(19726 :: int, 4 :: int), (19727, 0)] = map_of [(19727, 0), (19726, 4)]"
    by (rule ext) simp
  have day: "utc_today ((\<lambda>k. 1704456000000 + int k) 0) = utc_today ((\<lambda>k. 1704412800000) 5)"
    by (simp add: utc_today_def)
  from same_series_same_day_same_result
    [of "[(19726, 4), (19727, 0)]" "[(19727, 0), (19726, 4)]"
      "\<lambda>k. 1704456000000 + int k" 0 "\<lambda>k. 1704412800000" 5 "\<lambda>date year. ''Jan''",
      OF unique same day]
  show ?thesis using unique same day by simp
qed

section \<open>The copy in src/fetchers/streak-fetcher.js\<close>

text \<open>
  The two copies differ in the current streak only. The loop over the sorted keys has no
  day of grace (today with a zero count ends the streak at once) and does not look at the
  distance between two keys (a missing day does not end the streak).
\<close>

lemma keys_walk_bounds:
  assumes "sorted (rev ys)"
    and "foldl (keys_walk_step S today) (0, True, None, None) ys = (c, streaking, s, e)"
  shows "(c = 0 \<longrightarrow> e = None)
       \<and> (0 < c \<longrightarrow> (\<exists>start ending. s = Some start \<and> e = Some ending
             \<and> start \<le> ending \<and> start \<in> set ys))"
  using assms
proof (induction ys arbitrary: c streaking s e rule: rev_induct)
  case Nil
  then show ?case by simp
next
  case (snoc d ys)
  obtain c0 b0 s0 e0
    where st: "foldl (keys_walk_step S today) (0, True, None, None) ys = (c0, b0, s0, e0)"
    by (metis prod_cases4)
  from snoc.prems(1) have sys: "sorted (rev ys)" and le: "\<And>y. y \<in> set ys \<Longrightarrow> d \<le> y"
    by simp_all
  note ih = snoc.IH [OF sys st]
  from snoc.prems(2) st have step: "keys_walk_step S today (c0, b0, s0, e0) d = (c, streaking, s, e)"
    by simp
  show ?case
  proof (cases "d \<le> today \<and> b0 \<and> positive (map_of S d)")
    case True
    with step have new: "c = c0 + 1" "s = Some d" "e = (if e0 = None then Some d else e0)"
      by (auto simp: Let_def)
    show ?thesis
    proof (cases "c0 = 0")
      case True
      with ih new show ?thesis by simp
    next
      case False
      with ih obtain start ending where "s0 = Some start" "e0 = Some ending"
        "start \<le> ending" "start \<in> set ys"
        by auto
      with new le [of start] show ?thesis by simp
    qed
  next
    case False
    with step have "c = c0" "s = s0" "e = e0"
      by (auto simp: Let_def split: if_splits)
    with ih show ?thesis by auto
  qed
qed

text \<open>Its total is the same sum, and its current streak, when positive, has both boundary
  dates in order.\<close>

lemma keys_copy_boundaries_ordered:
  "0 < currentStreak (calculateStreaks_keys_locals S now) \<longrightarrow>
     (\<exists>start ending.
        currentStreakStart (calculateStreaks_keys_locals S now) = Some start
      \<and> currentStreakEnd (calculateStreaks_keys_locals S now) = Some ending
      \<and> start \<le> ending)"
proof -
  obtain c b s e where walk: "keys_walk S (utc_today now) (sort (Object_keys S)) = (c, b, s, e)"
    by (metis prod_cases4)
  obtain p t ts l ls le where "longest_scan S (sort (Object_keys S)) = (p, t, ts, l, ls, le)"
    by (metis prod_cases6)
  with walk have "currentStreak (calculateStreaks_keys_locals S now) = c"
    "currentStreakStart (calculateStreaks_keys_locals S now) = s"
    "currentStreakEnd (calculateStreaks_keys_locals S now) = e"
    by (simp_all add: calculateStreaks_keys_locals_def Let_def)
  moreover from walk keys_walk_bounds [of "rev (sort (Object_keys S))" S "utc_today now" c b s e]
  have "0 < c \<longrightarrow> (\<exists>start ending. s = Some start \<and> e = Some ending \<and> start \<le> ending)"
    by (auto simp: keys_walk_def)
  ultimately show ?thesis by simp
qed

lemma keys_copy_total:
  "totalContributions (calculateStreaks_keys_locals S now)
     = sum_list (map (\<lambda>date. or_zero (map_of S date)) (sort (Object_keys S)))"
proof -
  obtain c b s e where "keys_walk S (utc_today now) (sort (Object_keys S)) = (c, b, s, e)"
    by (metis prod_cases4)
  moreover obtain p t ts l ls le
    where "longest_scan S (sort (Object_keys S)) = (p, t, ts, l, ls, le)"
    by (metis prod_cases6)
  ultimately show ?thesis
    by (simp add: calculateStreaks_keys_locals_def Let_def foldl_add_sum_list)
qed

text \<open>
  C1. The loop over the sorted keys has no anchor. With 4 contributions yesterday
  (2024-01-04) and none today (2024-01-05) it reports a current streak of 0 with null
  boundary dates, although the day before today has a positive count; the other copy
  anchors at yesterday and reports 1. With one contribution on 2022-12-31, the last key
  of the series, and neither today nor yesterday in the series, it reports a current
  streak of 1 that ends on 2022-12-31; the other copy reports 0 with null boundary dates.
\<close>

theorem keys_copy_has_no_anchor:
  "utc_today 1704456000000 = 19727
   \<and> \<not> positive (map_of [(19726, 4), (19727, 0)] (utc_today 1704456000000))
   \<and> positive (map_of [(19726, 4), (19727, 0)] (utc_today 1704456000000 - 1))
   \<and> calculateStreaks_keys_locals [(19726, 4), (19727, 0)] 1704456000000 =
       \<lparr> currentStreak = 0, longestStreak = 1, totalContributions = 4,
         firstContribution = Some 19726,
         currentStreakStart = None, currentStreakEnd = None,
         longestStreakStart = Some 19726, longestStreakEnd = Some 19726 \<rparr>
   \<and> calculateStreaks_locals [(19726, 4), (19727, 0)] 1704456000000 =
       Some \<lparr> currentStreak = 1, longestStreak = 1, totalContributions = 4,
              firstContribution = Some 19726,
              currentStreakStart = Some 19726, currentStreakEnd = Some 19726,
              longestStreakStart = Some 19726, longestStreakEnd = Some 19726 \<rparr>
   \<and> \<not> positive (map_of [(19357, 1)] (utc_today 1704456000000))
   \<and> \<not> positive (map_of [(19357, 1)] (utc_today 1704456000000 - 1))
   \<and> calculateStreaks_keys_locals [(19357, 1)] 1704456000000 =
       \<lparr> currentStreak = 1, longestStreak = 1, totalContributions = 1,
         firstContribution = Some 19357,
         currentStreakStart = Some 19357, currentStreakEnd = Some 19357,
         longestStreakStart = Some 19357, longestStreakEnd = Some 19357 \<rparr>
   \<and> calculateStreaks_locals [(19357, 1)] 1704456000000 =
       Some \<lparr> currentStreak = 0, longestStreak = 1, totalContributions = 1,
              firstContribution = Some 19357,
              currentStreakStart = None, currentStreakEnd = None,
              longestStreakStart = Some 19357, longestStreakEnd = Some 19357 \<rparr>"
  by code_simp

text \<open>
  C2. The loop over the sorted keys counts across days that are absent from the series.
  With one contribution on 2022-12-31, no key in 2023 (a year without contributions is
  not among the years fetched) and 2 contributions today, 2024-01-01, it reports a
  current streak of 2 that starts on 2022-12-31 and ends today, although the day before
  today is absent; the other copy stops there and reports 1.
\<close>

theorem keys_copy_counts_across_gap:
  "utc_today 1704110400000 = 19723
   \<and> map_of [(19357, 1), (19723, 2)] (utc_today 1704110400000 - 1) = None
   \<and> calculateStreaks_keys_locals [(19357, 1), (19723, 2)] 1704110400000 =
       \<lparr> currentStreak = 2, longestStreak = 1, totalContributions = 3,
         firstContribution = Some 19357,
         currentStreakStart = Some 19357, currentStreakEnd = Some 19723,
         longestStreakStart = Some 19357, longestStreakEnd = Some 19357 \<rparr>
   \<and> calculateStreaks_locals [(19357, 1), (19723, 2)] 1704110400000 =
       Some \<lparr> currentStreak = 1, longestStreak = 1, totalContributions = 3,
              firstContribution = Some 19357,
              currentStreakStart = Some 19723, currentStreakEnd = Some 19723,
              longestStreakStart = Some 19357, longestStreakEnd = Some 19357 \<rparr>"
  by code_simp

end
